theory Spec2Isabelle
  imports Main "HOL-Library.Word"
begin

section \<open>Go base types\<close>

text \<open>
  Go's \<open>int\<close> is a two's-complement machine integer (64 bits on the 64-bit targets);
  arithmetic on it wraps around. \<open>string\<close> is a byte string whose zero value is the
  empty string.
\<close>

type_synonym go_int = "64 word"

section \<open>ReadHeavyStruct: a map guarded by a read/write mutex\<close>

text \<open>
  \<^verbatim>\<open>
  type ReadHeavyStruct struct {
      mu   sync.RWMutex
      data map[string]string
  }
  \<close>
  A Go map value is either \<open>nil\<close> (the zero value of the field) or a map made with
  \<open>make\<close>; the two are distinguished, since reading a nil map is allowed and assigning
  into it panics. \<open>Read\<close> and \<open>Write\<close> take the lock on entry and release it by
  \<open>defer\<close> on every exit, so between two calls the lock is free and each call is one
  atomic transition of \<open>data\<close>.
\<close>

datatype panic = NilMapAssignment \<comment> \<open>"assignment to entry in nil map"\<close>

record ReadHeavyStruct =
  data :: "(string \<rightharpoonup> string) option"

definition Read :: "string \<Rightarrow> ReadHeavyStruct \<Rightarrow> string \<times> bool" where
  \<comment> \<open>\<open>val, exists := r.data[key]\<close>: a missing key, also in a nil map, gives the zero value
      and \<open>false\<close>.\<close>
  "Read key r =
     (case data r of
        None \<Rightarrow> ('''', False)
      | Some m \<Rightarrow> (case m key of None \<Rightarrow> ('''', False) | Some val \<Rightarrow> (val, True)))"

definition Write :: "string \<Rightarrow> string \<Rightarrow> ReadHeavyStruct \<Rightarrow> panic + ReadHeavyStruct" where
  \<comment> \<open>\<open>r.data[key] = value\<close>\<close>
  "Write key val r =
     (case data r of
        None \<Rightarrow> Inl NilMapAssignment
      | Some m \<Rightarrow> Inr (r\<lparr>data := Some (m(key \<mapsto> val))\<rparr>))"

definition zero_ReadHeavyStruct :: ReadHeavyStruct where
  \<comment> \<open>\<open>ReadHeavyStruct{}\<close>: the map field is nil\<close>
  "zero_ReadHeavyStruct = \<lparr>data = None\<rparr>"

definition new_ReadHeavyStruct :: ReadHeavyStruct where
  \<comment> \<open>as \<open>TestRWMutex\<close> builds it: \<open>ReadHeavyStruct{data: make(map[string]string)}\<close>\<close>
  "new_ReadHeavyStruct = \<lparr>data = Some Map.empty\<rparr>"

section \<open>SafeQueue: a slice guarded by a mutex\<close>

text \<open>
  \<^verbatim>\<open>
  type SafeQueue struct {
      mu    sync.Mutex
      queue []int
  }
  \<close>
  Both methods hold the mutex for their whole body, so each call is one atomic
  transition of the slice.
\<close>

record SafeQueue =
  queue :: "go_int list"

definition zero_SafeQueue :: SafeQueue where
  \<comment> \<open>\<open>SafeQueue{}\<close>\<close>
  "zero_SafeQueue = \<lparr>queue = []\<rparr>"

definition Enqueue :: "go_int \<Rightarrow> SafeQueue \<Rightarrow> SafeQueue" where
  \<comment> \<open>\<open>sq.queue = append(sq.queue, item)\<close>\<close>
  "Enqueue item sq = sq\<lparr>queue := queue sq @ [item]\<rparr>"

definition Dequeue :: "SafeQueue \<Rightarrow> (go_int \<times> bool) \<times> SafeQueue" where
  \<comment> \<open>\<open>if len(sq.queue) == 0 { return 0, false }; item := sq.queue[0];
      sq.queue = sq.queue[1:]; return item, true\<close>\<close>
  "Dequeue sq =
     (if length (queue sq) = 0 then ((0, False), sq)
      else ((queue sq ! 0, True), sq\<lparr>queue := drop 1 (queue sq)\<rparr>))"

subsection \<open>The producer and the consumer of \<open>TestSafeQueue\<close>\<close>

text \<open>
  \<open>producer\<close> enqueues its items in order, one call of \<open>Enqueue\<close> per loop iteration;
  \<open>consumer\<close> calls \<open>Dequeue\<close> until a call reports \<open>false\<close>, then leaves its loop.
  The two run as goroutines: a schedule says whose loop iteration comes next. An
  iteration of a goroutine that has already returned does nothing.
\<close>

datatype party = Producer | Consumer

record qsys =
  todo :: "go_int list"      \<comment> \<open>the items \<open>producer\<close> has not enqueued yet\<close>
  sq :: SafeQueue
  consumed :: "go_int list"  \<comment> \<open>the items \<open>consumer\<close> has got so far, in order\<close>
  stopped :: bool            \<comment> \<open>\<open>consumer\<close> has left its loop\<close>

definition TestSafeQueue :: "go_int list \<Rightarrow> qsys" where
  "TestSafeQueue items = \<lparr>todo = items, sq = zero_SafeQueue, consumed = [], stopped = False\<rparr>"

fun qstep :: "party \<Rightarrow> qsys \<Rightarrow> qsys" where
  "qstep Producer s =
     (case todo s of
        [] \<Rightarrow> s
      | item # rest \<Rightarrow> s\<lparr>todo := rest, sq := Enqueue item (sq s)\<rparr>)"
| "qstep Consumer s =
     (if stopped s then s
      else case Dequeue (sq s) of
             ((item, ok), sq') \<Rightarrow>
               if \<not> ok then s\<lparr>stopped := True\<rparr>
               else s\<lparr>sq := sq', consumed := consumed s @ [item]\<rparr>)"

fun qrun :: "party list \<Rightarrow> qsys \<Rightarrow> qsys" where
  "qrun [] s = s"
| "qrun (p # ps) s = qrun ps (qstep p s)"

section \<open>SafeCounter: an integer guarded by a mutex\<close>

text \<open>
  \<^verbatim>\<open>
  type SafeCounter struct {
      mu    sync.Mutex
      value int
  }
  func (c *SafeCounter) Increment() { c.mu.Lock(); defer c.mu.Unlock(); c.value++ }
  func (c *SafeCounter) Value() int { c.mu.Lock(); defer c.mu.Unlock(); return c.value }
  \<close>
  The mutex is modelled by its state, locked or not. \<open>c.value++\<close> is a read of the field
  followed by a write of the successor, two separate accesses of shared memory; nothing
  but the mutex keeps another goroutine from running between them.
\<close>

record SafeCounter =
  mu :: bool
  "value" :: go_int

definition zero_SafeCounter :: SafeCounter where
  \<comment> \<open>\<open>SafeCounter{}\<close>\<close>
  "zero_SafeCounter = \<lparr>mu = False, value = 0\<rparr>"

text \<open>
  The goroutines of \<open>TestMutex\<close>:
  \<^verbatim>\<open>
  go func() {
      defer wg.Done()
      for j := 0; j < 1000; j++ { safeCounter.Increment() }
  }()
  \<close>
  A goroutine is at one of four points of \<open>Increment\<close>: before \<open>Lock\<close> (or, once its
  loop is over, returned), before the read of \<open>c.value\<close>, before the write (holding the
  value it has read), or before the deferred \<open>Unlock\<close>.
\<close>

datatype pc = AtLock | AtLoad | AtStore go_int | AtUnlock

record worker =
  j :: nat   \<comment> \<open>the loop counter\<close>
  pc :: pc

record csys =
  counter :: SafeCounter
  iters :: nat              \<comment> \<open>the loop bound, 1000 in the source\<close>
  workers :: "worker list"

definition TestMutex :: "nat \<Rightarrow> nat \<Rightarrow> csys" where
  \<comment> \<open>\<open>n\<close> goroutines, each about to call \<open>Increment\<close> \<open>m\<close> times on a fresh counter\<close>
  "TestMutex n m =
     \<lparr>counter = zero_SafeCounter, iters = m, workers = replicate n \<lparr>j = 0, pc = AtLock\<rparr>\<rparr>"

definition cstep :: "nat \<Rightarrow> csys \<Rightarrow> csys option" where
  \<comment> \<open>one step of goroutine \<open>t\<close>; \<open>None\<close> when it cannot move: it has returned, or it is
      blocked in \<open>Lock\<close>. (\<open>Unlock\<close> runs only in a goroutine that holds the lock, so the
      runtime's check for unlocking an unlocked mutex never fires and is left out.)\<close>
  "cstep t s =
     (if length (workers s) \<le> t then None
      else
        let w = workers s ! t; c = counter s in
        case pc w of
          AtLock \<Rightarrow>
            if iters s \<le> j w then None
            else if mu c then None
            else Some (s\<lparr>counter := c\<lparr>mu := True\<rparr>,
                         workers := (workers s)[t := w\<lparr>pc := AtLoad\<rparr>]\<rparr>)
        | AtLoad \<Rightarrow>
            Some (s\<lparr>workers := (workers s)[t := w\<lparr>pc := AtStore (value c)\<rparr>]\<rparr>)
        | AtStore r \<Rightarrow>
            Some (s\<lparr>counter := c\<lparr>value := r + 1\<rparr>,
                    workers := (workers s)[t := w\<lparr>pc := AtUnlock\<rparr>]\<rparr>)
        | AtUnlock \<Rightarrow>
            Some (s\<lparr>counter := c\<lparr>mu := False\<rparr>,
                    workers := (workers s)[t := w\<lparr>j := j w + 1, pc := AtLock\<rparr>]\<rparr>))"

fun crun :: "nat list \<Rightarrow> csys \<Rightarrow> csys" where
  \<comment> \<open>a schedule names the goroutine to run next; one that cannot move is passed over\<close>
  "crun [] s = s"
| "crun (t # ts) s = crun ts (case cstep t s of None \<Rightarrow> s | Some s' \<Rightarrow> s')"

definition finished :: "csys \<Rightarrow> bool" where
  \<comment> \<open>every goroutine has left its loop: what \<open>wg.Wait()\<close> waits for\<close>
  "finished s = list_all (\<lambda>w. pc w = AtLock \<and> iters s \<le> j w) (workers s)"

definition Value :: "csys \<Rightarrow> go_int option" where
  \<comment> \<open>\<open>safeCounter.Value()\<close>: returns the field once the lock can be taken\<close>
  "Value s = (if mu (counter s) then None else Some (value (counter s)))"

section \<open>The generator\<close>

text \<open>
  \<^verbatim>\<open>
  func generatorWithBoring(msg string) <-chan string {
      c := make(chan string)
      go func() {
          for i := 0; ; i++ {
              c <- fmt.Sprintf("%s %d", msg, i)
              time.Sleep(time.Millisecond * time.Duration(rand.Intn(1e3)))
          }
      }()
      return c
  }
  \<close>
\<close>

subsection \<open>Formatting\<close>

definition digit :: "nat \<Rightarrow> char" where
  "digit d = ''0123456789'' ! d"

fun decimal :: "nat \<Rightarrow> string" where
  "decimal n = (if n < 10 then [digit n] else decimal (n div 10) @ [digit (n mod 10)])"

declare decimal.simps [simp del]

definition fmt_d :: "go_int \<Rightarrow> string" where
  \<comment> \<open>the verb \<open>%d\<close> on an \<open>int\<close>: a minus sign for a negative value, then the digits\<close>
  "fmt_d i = (if sint i < 0 then CHR ''-'' # decimal (nat (- sint i)) else decimal (nat (sint i)))"

definition Sprintf_s_d :: "string \<Rightarrow> go_int \<Rightarrow> string" where
  \<comment> \<open>\<open>fmt.Sprintf("%s %d", msg, i)\<close>\<close>
  "Sprintf_s_d msg i = msg @ '' '' @ fmt_d i"

subsection \<open>The delay\<close>

text \<open>
  \<open>rand.Intn(n)\<close> belongs to the standard library. It panics when \<open>n \<le> 0\<close>; otherwise
  it reduces a non-negative draw of the pseudo-random source modulo \<open>n\<close>. The draw is
  a parameter here. \<open>time.Duration\<close> is an \<open>int64\<close> count of nanoseconds and
  \<open>time.Millisecond\<close> is the constant 1000000.
\<close>

datatype rand_panic = InvalidArgument \<comment> \<open>"invalid argument to Intn"\<close>

definition Intn :: "go_int \<Rightarrow> nat \<Rightarrow> rand_panic + go_int" where
  "Intn n draw =
     (if sint n \<le> 0 then Inl InvalidArgument else Inr (word_of_nat (draw mod nat (sint n))))"

definition Millisecond :: "64 word" where
  "Millisecond = 1000000"

definition delay :: "nat \<Rightarrow> rand_panic + 64 word" where
  \<comment> \<open>\<open>time.Millisecond * time.Duration(rand.Intn(1e3))\<close>, the argument of \<open>time.Sleep\<close>\<close>
  "delay draw = (case Intn 1000 draw of Inl p \<Rightarrow> Inl p | Inr d \<Rightarrow> Inr (Millisecond * d))"

subsection \<open>The loop\<close>

text \<open>
  The loop has no exit, so a run is described by its first \<open>k\<close> iterations, for every
  \<open>k\<close>: what each sent on the channel and how long it then slept. The channel is
  unbuffered and has one sender, so the receiver gets the messages in the order of the
  sends. \<open>draws n\<close> is the draw of the pseudo-random source in iteration \<open>n\<close>.
\<close>

record iteration =
  sent :: string
  slept :: "64 word"

fun generator_loop :: "string \<Rightarrow> (nat \<Rightarrow> nat) \<Rightarrow> nat \<Rightarrow> go_int \<Rightarrow> rand_panic + iteration list" where
  \<comment> \<open>\<open>k\<close> iterations from loop counter \<open>i\<close>\<close>
  "generator_loop msg draws 0 i = Inr []"
| "generator_loop msg draws (Suc k) i =
     (case delay (draws 0) of
        Inl p \<Rightarrow> Inl p
      | Inr d \<Rightarrow>
          (case generator_loop msg (\<lambda>n. draws (Suc n)) k (i + 1) of
             Inl p \<Rightarrow> Inl p
           | Inr its \<Rightarrow> Inr (\<lparr>sent = Sprintf_s_d msg i, slept = d\<rparr> # its)))"

definition generatorWithBoring :: "string \<Rightarrow> (nat \<Rightarrow> nat) \<Rightarrow> nat \<Rightarrow> rand_panic + iteration list" where
  \<comment> \<open>\<open>for i := 0; ; i++\<close>\<close>
  "generatorWithBoring msg draws k = generator_loop msg draws k 0"

section \<open>Fan-in\<close>

text \<open>
  \<^verbatim>\<open>
  func fanIn(input1, input2 <-chan string) <-chan string {
      c := make(chan string)
      go func() { for { c <- <-input1 } }()
      go func() { for { c <- <-input2 } }()
      return c
  }
  \<close>
  Channels are unbuffered. A channel that \<open>fanIn\<close> reads is fed from outside: the model
  keeps, for each channel, the messages its sender will still send, and whether the
  sender closes the channel after the last of them. A receive takes the next message;
  on a channel that is closed and drained it returns the zero value at once; otherwise
  it blocks.
\<close>

type_synonym chan = nat

record source =
  pending :: "string list"
  closes :: bool

definition recv :: "source \<Rightarrow> (string \<times> source) option" where
  "recv src =
     (case pending src of
        v # rest \<Rightarrow> Some (v, src\<lparr>pending := rest\<rparr>)
      | [] \<Rightarrow> if closes src then Some ('''', src) else None)"

text \<open>
  A forwarding goroutine is either at the receive \<open><-input\<close> or, with the value it has
  received, at the send \<open>c <- v\<close>.
\<close>

datatype loc = AtRecv | AtSend string

record forwarder =
  reads :: chan     \<comment> \<open>the channel it receives from\<close>
  writes :: chan    \<comment> \<open>the channel it sends to\<close>
  at :: loc

record runtime =
  made :: nat                        \<comment> \<open>the channels made so far are \<open>0, \<dots>, made - 1\<close>\<close>
  feeds :: "chan \<Rightarrow> source"
  procs :: "forwarder list"          \<comment> \<open>the goroutines started by \<open>fanIn\<close>\<close>
  got :: "chan \<Rightarrow> string list"       \<comment> \<open>what the reader of each channel has received, in order\<close>

definition fanIn :: "chan \<Rightarrow> chan \<Rightarrow> runtime \<Rightarrow> chan \<times> runtime" where
  "fanIn input1 input2 s =
     (let c = made s in
      (c, s\<lparr>made := Suc c,
            procs := procs s @ [\<lparr>reads = input1, writes = c, at = AtRecv\<rparr>,
                                \<lparr>reads = input2, writes = c, at = AtRecv\<rparr>]\<rparr>))"

definition fanIn_call :: "chan list \<Rightarrow> runtime \<Rightarrow> (chan \<times> runtime) option" where
  \<comment> \<open>the signature has two parameters and is not variadic: a call with another number
      of arguments does not compile\<close>
  "fanIn_call args s =
     (case args of [input1, input2] \<Rightarrow> Some (fanIn input1 input2 s) | _ \<Rightarrow> None)"

definition fstep :: "nat \<Rightarrow> runtime \<Rightarrow> runtime option" where
  \<comment> \<open>one step of goroutine \<open>k\<close>; \<open>None\<close> when it is blocked. The reader of the output
      channel is taken to be receiving, as the loop of \<open>main\<close> is.\<close>
  "fstep k s =
     (if length (procs s) \<le> k then None
      else
        let p = procs s ! k in
        case at p of
          AtRecv \<Rightarrow>
            (case recv (feeds s (reads p)) of
               None \<Rightarrow> None
             | Some (v, src') \<Rightarrow>
                 Some (s\<lparr>feeds := (feeds s)(reads p := src'),
                         procs := (procs s)[k := p\<lparr>at := AtSend v\<rparr>]\<rparr>))
        | AtSend v \<Rightarrow>
            Some (s\<lparr>got := (got s)(writes p := got s (writes p) @ [v]),
                    procs := (procs s)[k := p\<lparr>at := AtRecv\<rparr>]\<rparr>))"

fun frun :: "nat list \<Rightarrow> runtime \<Rightarrow> runtime" where
  "frun [] s = s"
| "frun (k # ks) s = frun ks (case fstep k s of None \<Rightarrow> s | Some s' \<Rightarrow> s')"

definition quiescent :: "runtime \<Rightarrow> bool" where
  \<comment> \<open>no goroutine can move\<close>
  "quiescent s = list_all (\<lambda>k. fstep k s = None) [0..<length (procs s)]"

definition two_sources :: "string list \<Rightarrow> bool \<Rightarrow> string list \<Rightarrow> bool \<Rightarrow> runtime" where
  \<comment> \<open>channels 0 and 1, each with a sender that has a finite list of messages to send\<close>
  "two_sources xs cx ys cy =
     \<lparr>made = 2,
      feeds = (\<lambda>_. \<lparr>pending = [], closes = False\<rparr>)
                (0 := \<lparr>pending = xs, closes = cx\<rparr>, 1 := \<lparr>pending = ys, closes = cy\<rparr>),
      procs = [],
      got = (\<lambda>_. [])\<rparr>"

subsection \<open>Running a merge of two sources\<close>

text \<open>
  As \<open>main\<close> does: two channels are handed to \<open>fanIn\<close> and the caller reads the
  channel it returns. The result is what the caller has read after the schedule, and
  the state reached.
\<close>

definition fanIn_run :: "string list \<Rightarrow> bool \<Rightarrow> string list \<Rightarrow> bool \<Rightarrow> nat list \<Rightarrow> string list \<times> runtime" where
  "fanIn_run xs cx ys cy sched =
     (case fanIn 0 1 (two_sources xs cx ys cy) of
        (c, s) \<Rightarrow> let s' = frun sched s in (got s' c, s'))"

definition idle_runtime :: "nat \<Rightarrow> runtime" where
  "idle_runtime n =
     \<lparr>made = n, feeds = (\<lambda>_. \<lparr>pending = [], closes = False\<rparr>), procs = [], got = (\<lambda>_. [])\<rparr>"

section \<open>Invariants and measures\<close>

subsection \<open>The counter\<close>

text \<open>
  \<open>credit\<close> counts the increments a goroutine has written to the field; \<open>inside\<close> says
  that it is between \<open>Lock\<close> and \<open>Unlock\<close>. The invariant: loop counters stay within the
  bound, at most one goroutine is inside, the mutex is locked exactly when one is, a
  value read under the lock is still the field's value, and the field is the sum of the
  credits. \<open>work\<close> is the number of steps still to be taken.
\<close>

definition credit :: "worker \<Rightarrow> nat" where
  "credit w = j w + (if pc w = AtUnlock then 1 else 0)"

definition inside :: "csys \<Rightarrow> nat \<Rightarrow> bool" where
  "inside s t \<longleftrightarrow> t < length (workers s) \<and> pc (workers s ! t) \<noteq> AtLock"

definition cinv :: "csys \<Rightarrow> bool" where
  "cinv s \<longleftrightarrow>
     (\<forall>t < length (workers s). j (workers s ! t) \<le> iters s) \<and>
     (\<forall>t. inside s t \<longrightarrow> j (workers s ! t) < iters s) \<and>
     (\<forall>t u. inside s t \<and> inside s u \<longrightarrow> t = u) \<and>
     (mu (counter s) \<longleftrightarrow> (\<exists>t. inside s t)) \<and>
     (\<forall>t r. t < length (workers s) \<and> pc (workers s ! t) = AtStore r \<longrightarrow> r = value (counter s)) \<and>
     value (counter s) = word_of_nat (sum_list (map credit (workers s)))"

fun phase :: "pc \<Rightarrow> nat" where
  "phase AtLock = 0"
| "phase AtLoad = 1"
| "phase (AtStore r) = 2"
| "phase AtUnlock = 3"

definition work :: "csys \<Rightarrow> nat" where
  "work s = sum_list (map (\<lambda>w. 4 * (iters s - j w) - phase (pc w)) (workers s))"

subsection \<open>The merge\<close>

text \<open>
  For two open sources sending \<open>xs\<close> and \<open>ys\<close>: what the caller has read is an
  interleaving of what has left the first forwarder and what has left the second, and
  each source's messages are split into those forwarded, the one held and those pending.
\<close>

fun held :: "loc \<Rightarrow> string list" where
  "held AtRecv = []"
| "held (AtSend v) = [v]"

definition finv :: "string list \<Rightarrow> string list \<Rightarrow> runtime \<Rightarrow> bool" where
  "finv xs ys s \<longleftrightarrow>
     (\<exists>l0 l1 dx dy.
        procs s = [\<lparr>reads = 0, writes = 2, at = l0\<rparr>, \<lparr>reads = 1, writes = 2, at = l1\<rparr>] \<and>
        \<not> closes (feeds s 0) \<and> \<not> closes (feeds s 1) \<and>
        got s 2 \<in> shuffles dx dy \<and>
        dx @ held l0 @ pending (feeds s 0) = xs \<and>
        dy @ held l1 @ pending (feeds s 1) = ys)"

definition fwork :: "runtime \<Rightarrow> nat" where
  "fwork s = sum_list (map (\<lambda>p. 2 * length (pending (feeds s (reads p))) + length (held (at p))) (procs s))"

section \<open>Properties of the key/value store\<close>

text \<open>
  C4. Read over write: once \<open>Write(k, v)\<close> has completed, \<open>Read(k)\<close> returns
  \<open>(v, true)\<close>; of two completed writes to the same key the later one is read.
\<close>

theorem Read_after_Write:
  "(Write k v r = Inr r' \<longrightarrow> Read k r' = (v, True)) \<and>
   (Write k v1 r = Inr r1 \<and> Write k v2 r1 = Inr r2 \<longrightarrow> Read k r2 = (v2, True))"
proof -
  have one: "Read k b = (w, True)" if "Write k w a = Inr b" for a b w
    using that by (auto simp: Write_def Read_def split: option.splits)
  show ?thesis
    using one by blast
qed

theorem Read_after_Write_witness:
  "Write ''foo'' ''v1'' new_ReadHeavyStruct = Inr \<lparr>data = Some [''foo'' \<mapsto> ''v1'']\<rparr> \<and>
   Write ''foo'' ''v2'' \<lparr>data = Some [''foo'' \<mapsto> ''v1'']\<rparr> = Inr \<lparr>data = Some [''foo'' \<mapsto> ''v2'']\<rparr> \<and>
   Read ''foo'' \<lparr>data = Some [''foo'' \<mapsto> ''v1'']\<rparr> = (''v1'', True) \<and>
   Read ''foo'' \<lparr>data = Some [''foo'' \<mapsto> ''v2'']\<rparr> = (''v2'', True)"
proof -
  have w1: "Write ''foo'' ''v1'' new_ReadHeavyStruct = Inr \<lparr>data = Some [''foo'' \<mapsto> ''v1'']\<rparr>"
    by (simp add: Write_def new_ReadHeavyStruct_def)
  have w2: "Write ''foo'' ''v2'' \<lparr>data = Some [''foo'' \<mapsto> ''v1'']\<rparr>
              = Inr \<lparr>data = Some [''foo'' \<mapsto> ''v2'']\<rparr>"
    by (simp add: Write_def)
  from Read_after_Write [of "''foo''" "''v1''" new_ReadHeavyStruct
      "\<lparr>data = Some [''foo'' \<mapsto> ''v1'']\<rparr>" "''v1''" "\<lparr>data = Some [''foo'' \<mapsto> ''v1'']\<rparr>"
      "''v2''" "\<lparr>data = Some [''foo'' \<mapsto> ''v2'']\<rparr>"] w1 w2
  have "Read ''foo'' \<lparr>data = Some [''foo'' \<mapsto> ''v1'']\<rparr> = (''v1'', True)" by blast
  moreover
  from Read_after_Write [of "''foo''" "''v2''" "\<lparr>data = Some [''foo'' \<mapsto> ''v1'']\<rparr>"
      "\<lparr>data = Some [''foo'' \<mapsto> ''v2'']\<rparr>" "''v1''" new_ReadHeavyStruct
      "''v2''" "\<lparr>data = Some [''foo'' \<mapsto> ''v2'']\<rparr>"] w1 w2
  have "Read ''foo'' \<lparr>data = Some [''foo'' \<mapsto> ''v2'']\<rparr> = (''v2'', True)" by blast
  ultimately show ?thesis using w1 w2 by blast
qed

text \<open>
  C9. \<open>Write\<close> on the zero value of the struct, whose map is nil, panics with an
  assignment to an entry in a nil map. \<open>Write\<close> panics exactly when the map is nil; on
  the struct that \<open>TestRWMutex\<close> builds with \<open>make\<close> it completes.
\<close>

theorem Write_nil_map_panics:
  "Write k v zero_ReadHeavyStruct = Inl NilMapAssignment \<and>
   (Write k v r = Inl NilMapAssignment) = (data r = None) \<and>
   (\<exists>r'. Write k v new_ReadHeavyStruct = Inr r')"
  by (auto simp: Write_def zero_ReadHeavyStruct_def new_ReadHeavyStruct_def split: option.splits)

text \<open>
  C10. A completed \<open>Write(k, v)\<close> changes the mapping of \<open>k\<close> only: for every other key,
  \<open>Read\<close> returns the same value and flag after it as before.
\<close>

theorem Write_frame:
  "Write k v r = Inr r' \<Longrightarrow> k' \<noteq> k \<Longrightarrow> Read k' r' = Read k' r"
  by (auto simp: Write_def Read_def split: option.splits)

theorem Write_frame_witness:
  "Write ''b'' ''2'' \<lparr>data = Some [''a'' \<mapsto> ''1'']\<rparr> = Inr \<lparr>data = Some [''a'' \<mapsto> ''1'', ''b'' \<mapsto> ''2'']\<rparr> \<and>
   ''a'' \<noteq> ''b'' \<and>
   Read ''a'' \<lparr>data = Some [''a'' \<mapsto> ''1'', ''b'' \<mapsto> ''2'']\<rparr> = (''1'', True) \<and>
   Read ''a'' \<lparr>data = Some [''a'' \<mapsto> ''1'']\<rparr> = (''1'', True)"
proof -
  have w: "Write ''b'' ''2'' \<lparr>data = Some [''a'' \<mapsto> ''1'']\<rparr>
             = Inr \<lparr>data = Some [''a'' \<mapsto> ''1'', ''b'' \<mapsto> ''2'']\<rparr>"
    by (simp add: Write_def)
  have ne: "''a'' \<noteq> ''b''" by simp
  have r: "Read ''a'' \<lparr>data = Some [''a'' \<mapsto> ''1'']\<rparr> = (''1'', True)"
    by (simp add: Read_def)
  from Write_frame [OF w ne] r w ne show ?thesis by simp
qed

section \<open>Properties of the queue\<close>

text \<open>
  C3. Absence is a flag. \<open>Dequeue\<close> on an empty queue, the freshly made one included,
  returns \<open>(0, false)\<close> and leaves the queue as it was; \<open>Read\<close> of a key that the map
  does not hold returns the empty string and \<open>false\<close>. Both functions are total and
  return plain values: there is no error result and no state in which they fail to
  return.
\<close>

theorem absent_is_a_flag:
  "Dequeue zero_SafeQueue = ((0, False), zero_SafeQueue) \<and>
   (queue q = [] \<longrightarrow> Dequeue q = ((0, False), q)) \<and>
   ((case data r of None \<Rightarrow> True | Some m \<Rightarrow> m k = None) \<longrightarrow> Read k r = ('''', False))"
  by (auto simp: Dequeue_def zero_SafeQueue_def Read_def split: option.splits)

theorem absent_is_a_flag_witness:
  "queue zero_SafeQueue = [] \<and> Dequeue zero_SafeQueue = ((0, False), zero_SafeQueue) \<and>
   (case data new_ReadHeavyStruct of None \<Rightarrow> True | Some m \<Rightarrow> m ''foo'' = None) \<and>
   Read ''foo'' new_ReadHeavyStruct = ('''', False)"
  using absent_is_a_flag [where q = zero_SafeQueue and r = new_ReadHeavyStruct and k = "''foo''"]
  by (simp add: zero_SafeQueue_def new_ReadHeavyStruct_def)

lemma qstep_order: "consumed (qstep p s) @ queue (sq (qstep p s)) @ todo (qstep p s)
    = consumed s @ queue (sq s) @ todo s"
proof (cases p)
  case Producer
  then show ?thesis by (cases "todo s") (simp_all add: Enqueue_def)
next
  case Consumer
  then show ?thesis
    by (cases "queue (sq s)") (simp_all add: Dequeue_def)
qed

lemma qrun_order: "consumed (qrun ps s) @ queue (sq (qrun ps s)) @ todo (qrun ps s)
    = consumed s @ queue (sq s) @ todo s"
  by (induction ps arbitrary: s) (simp_all add: qstep_order)

text \<open>
  C2. The queue is first-in first-out. \<open>Enqueue\<close> appends the item at the tail of the
  slice; \<open>Dequeue\<close> on a non-empty queue returns the head and leaves the rest. With the
  producer and the consumer of \<open>TestSafeQueue\<close> run under any schedule, the items
  consumed so far, then those in the queue, then those not yet enqueued, are the
  producer's items in their order; so when the producer is done and the queue is
  drained, the items consumed are exactly the producer's. For \<open>[1, 2, 3, 4, 5]\<close>
  enqueued and then dequeued, the consumer gets \<open>[1, 2, 3, 4, 5]\<close>.
\<close>

theorem SafeQueue_fifo:
  "queue (Enqueue x q) = queue q @ [x] \<and>
   (queue q = x # rest \<longrightarrow> Dequeue q = ((x, True), q\<lparr>queue := rest\<rparr>)) \<and>
   (let s = qrun sched (TestSafeQueue items)
    in consumed s @ queue (sq s) @ todo s = items \<and>
       (todo s = [] \<and> queue (sq s) = [] \<longrightarrow> consumed s = items)) \<and>
   consumed (qrun (replicate 5 Producer @ replicate 6 Consumer) (TestSafeQueue [1, 2, 3, 4, 5]))
     = [1, 2, 3, 4, 5]"
proof -
  have a: "queue (Enqueue x q) = queue q @ [x]" by (simp add: Enqueue_def)
  have b: "queue q = x # rest \<longrightarrow> Dequeue q = ((x, True), q\<lparr>queue := rest\<rparr>)"
    by (simp add: Dequeue_def)
  have c: "consumed (qrun sched (TestSafeQueue items)) @
           queue (sq (qrun sched (TestSafeQueue items))) @ todo (qrun sched (TestSafeQueue items)) = items"
    using qrun_order [of sched "TestSafeQueue items"]
    by (simp add: TestSafeQueue_def zero_SafeQueue_def)
  have d: "consumed (qrun (replicate 5 Producer @ replicate 6 Consumer) (TestSafeQueue [1, 2, 3, 4, 5]))
     = [1, 2, 3, 4, 5]"
    by (simp add: numeral_eq_Suc TestSafeQueue_def zero_SafeQueue_def Enqueue_def Dequeue_def)
  from a b c d show ?thesis by (auto simp: Let_def)
qed

theorem SafeQueue_fifo_witness:
  "queue \<lparr>queue = [7, 8]\<rparr> = 7 # [8] \<and> Dequeue \<lparr>queue = [7, 8]\<rparr> = ((7, True), \<lparr>queue = [8]\<rparr>) \<and>
   (let s = qrun [Producer, Consumer, Producer, Producer, Consumer, Consumer, Consumer] (TestSafeQueue [1, 2, 3])
    in todo s = [] \<and> queue (sq s) = [] \<and> consumed s = [1, 2, 3])"
  using SafeQueue_fifo [of 7 "\<lparr>queue = [7, 8]\<rparr>" "[8]"
      "[Producer, Consumer, Producer, Producer, Consumer, Consumer, Consumer]" "[1, 2, 3]"]
  by (simp add: TestSafeQueue_def zero_SafeQueue_def Enqueue_def Dequeue_def Let_def)

text \<open>
  The consumer of the source leaves its loop at the first \<open>Dequeue\<close> that reports
  \<open>false\<close>. Scheduled before the producer it consumes nothing; the order of what is
  consumed is not affected.
\<close>

lemma consumer_may_stop_early:
  "consumed (qrun (Consumer # replicate 5 Producer @ replicate 6 Consumer) (TestSafeQueue [1, 2, 3, 4, 5])) = []"
  by (simp add: numeral_eq_Suc TestSafeQueue_def zero_SafeQueue_def Enqueue_def Dequeue_def)

section \<open>Properties of the counter\<close>

lemma sint_word_of_nat:
  assumes "k < 2 ^ 63"
  shows "sint (word_of_nat k :: 64 word) = int k"
proof -
  have "int k < 2 ^ 63" using assms by (metis of_nat_less_iff of_nat_numeral of_nat_power)
  then have "signed_take_bit 63 (int k) = int k"
    by (intro signed_take_bit_int_eq_self) simp_all
  moreover have "sint (word_of_nat k :: 64 word) = signed_take_bit 63 (int k)"
    using sint_sbintrunc' [where 'a = 64, of "int k"] by simp
  ultimately show ?thesis by simp
qed

lemma sum_list_map_update:
  "t < length xs \<Longrightarrow> sum_list (map f (xs[t := y])) + f (xs ! t) = sum_list (map f xs) + (f y :: nat)"
proof (induction xs arbitrary: t)
  case Nil
  then show ?case by simp
next
  case (Cons x xs)
  then show ?case by (cases t) auto
qed

lemma cinv_init: "cinv (TestMutex n m)"
  by (auto simp: cinv_def TestMutex_def zero_SafeCounter_def inside_def credit_def sum_list_replicate)

lemma cstep_lock:
  assumes "cstep t s = Some s'" "pc (workers s ! t) = AtLock"
  shows "t < length (workers s) \<and> j (workers s ! t) < iters s \<and> \<not> mu (counter s) \<and>
         s' = s\<lparr>counter := (counter s)\<lparr>mu := True\<rparr>,
                workers := (workers s)[t := (workers s ! t)\<lparr>pc := AtLoad\<rparr>]\<rparr>"
  using assms by (auto simp: cstep_def Let_def split: if_splits)

lemma cstep_load:
  assumes "cstep t s = Some s'" "pc (workers s ! t) = AtLoad"
  shows "t < length (workers s) \<and>
         s' = s\<lparr>workers := (workers s)[t := (workers s ! t)\<lparr>pc := AtStore (value (counter s))\<rparr>]\<rparr>"
  using assms by (auto simp: cstep_def Let_def split: if_splits)

lemma cstep_store:
  assumes "cstep t s = Some s'" "pc (workers s ! t) = AtStore r"
  shows "t < length (workers s) \<and>
         s' = s\<lparr>counter := (counter s)\<lparr>value := r + 1\<rparr>,
                workers := (workers s)[t := (workers s ! t)\<lparr>pc := AtUnlock\<rparr>]\<rparr>"
  using assms by (auto simp: cstep_def Let_def split: if_splits)

lemma cstep_unlock:
  assumes "cstep t s = Some s'" "pc (workers s ! t) = AtUnlock"
  shows "t < length (workers s) \<and>
         s' = s\<lparr>counter := (counter s)\<lparr>mu := False\<rparr>,
                workers := (workers s)[t := (workers s ! t)\<lparr>j := j (workers s ! t) + 1, pc := AtLock\<rparr>]\<rparr>"
  using assms by (auto simp: cstep_def Let_def split: if_splits)

lemma cinv_step:
  assumes inv: "cinv s" and step: "cstep t s = Some s'"
  shows "cinv s'"
proof (cases "pc (workers s ! t)")
  case AtLock
  note st = cstep_lock [OF step AtLock]
  from st inv have none: "\<And>u. \<not> inside s u" by (auto simp: cinv_def)
  have ins: "\<And>u. inside s' u \<longleftrightarrow> u = t"
    using st none by (auto simp: inside_def nth_list_update)
  have cr: "sum_list (map credit (workers s')) = sum_list (map credit (workers s))"
    using st sum_list_map_update [of t "workers s" credit "(workers s ! t)\<lparr>pc := AtLoad\<rparr>"] AtLock
    by (simp add: credit_def)
  show ?thesis
    unfolding cinv_def
    using inv st AtLock ins cr none
    by (auto simp: cinv_def nth_list_update inside_def)
next
  case AtLoad
  note st = cstep_load [OF step AtLoad]
  from st AtLoad have me: "inside s t" by (simp add: inside_def)
  with inv have only: "\<And>u. inside s u \<longleftrightarrow> u = t" by (auto simp: cinv_def)
  have ins: "\<And>u. inside s' u \<longleftrightarrow> u = t"
    using st only by (auto simp: inside_def nth_list_update)
  have cr: "sum_list (map credit (workers s')) = sum_list (map credit (workers s))"
    using st sum_list_map_update [of t "workers s" credit
        "(workers s ! t)\<lparr>pc := AtStore (value (counter s))\<rparr>"] AtLoad
    by (simp add: credit_def)
  have other: "\<And>u. u < length (workers s) \<Longrightarrow> u \<noteq> t \<Longrightarrow> pc (workers s ! u) = AtLock"
    using only by (auto simp: inside_def)
  show ?thesis
    unfolding cinv_def
    using inv st AtLoad ins cr only other
    by (auto simp: cinv_def nth_list_update)
next
  case (AtStore r)
  note st = cstep_store [OF step AtStore]
  from st AtStore have me: "inside s t" by (simp add: inside_def)
  with inv have only: "\<And>u. inside s u \<longleftrightarrow> u = t" by (auto simp: cinv_def)
  have ins: "\<And>u. inside s' u \<longleftrightarrow> u = t"
    using st only by (auto simp: inside_def nth_list_update)
  from inv st AtStore have r: "r = value (counter s)" by (auto simp: cinv_def)
  have cr: "sum_list (map credit (workers s')) = sum_list (map credit (workers s)) + 1"
    using st sum_list_map_update [of t "workers s" credit "(workers s ! t)\<lparr>pc := AtUnlock\<rparr>"] AtStore
    by (simp add: credit_def)
  have other: "\<And>u. u < length (workers s) \<Longrightarrow> u \<noteq> t \<Longrightarrow> pc (workers s ! u) = AtLock"
    using only by (auto simp: inside_def)
  have v: "value (counter s') = word_of_nat (sum_list (map credit (workers s')))"
    using inv st r cr by (simp add: cinv_def)
  show ?thesis
    unfolding cinv_def
    using inv st AtStore ins only other v
    by (auto simp: cinv_def nth_list_update)
next
  case AtUnlock
  note st = cstep_unlock [OF step AtUnlock]
  from st AtUnlock have me: "inside s t" by (simp add: inside_def)
  with inv have only: "\<And>u. inside s u \<longleftrightarrow> u = t" by (auto simp: cinv_def)
  have other: "\<And>u. u < length (workers s) \<Longrightarrow> u \<noteq> t \<Longrightarrow> pc (workers s ! u) = AtLock"
    using only by (auto simp: inside_def)
  have ins: "\<And>u. \<not> inside s' u"
    using st other by (auto simp: inside_def nth_list_update)
  have lt: "j (workers s ! t) < iters s" using inv me by (auto simp: cinv_def)
  have cr: "sum_list (map credit (workers s')) = sum_list (map credit (workers s))"
    using st sum_list_map_update [of t "workers s" credit
        "(workers s ! t)\<lparr>j := j (workers s ! t) + 1, pc := AtLock\<rparr>"] AtUnlock
    by (simp add: credit_def)
  show ?thesis
    unfolding cinv_def
    using inv st AtUnlock ins cr other lt
    by (auto simp: cinv_def nth_list_update)
qed

lemma cinv_run: "cinv s \<Longrightarrow> cinv (crun ts s)"
  by (induction ts arbitrary: s) (auto split: option.splits intro: cinv_step)

lemma finished_credit:
  assumes "cinv s" "finished s"
  shows "sum_list (map credit (workers s)) = length (workers s) * iters s"
proof -
  have "\<forall>w \<in> set (workers s). credit w = iters s"
  proof
    fix w assume w: "w \<in> set (workers s)"
    then obtain t where t: "t < length (workers s)" "workers s ! t = w"
      by (auto simp: in_set_conv_nth)
    with assms(1) have "j w \<le> iters s" by (auto simp: cinv_def)
    moreover from assms(2) w have "pc w = AtLock \<and> iters s \<le> j w"
      by (auto simp: finished_def list_all_iff)
    ultimately show "credit w = iters s" by (simp add: credit_def)
  qed
  then have "map credit (workers s) = replicate (length (workers s)) (iters s)"
    by (simp add: map_replicate_const [symmetric] cong: map_cong)
  then show ?thesis by (simp add: sum_list_replicate)
qed

lemma finished_unlocked:
  assumes "cinv s" "finished s"
  shows "\<not> mu (counter s)"
proof -
  from assms(2) have "\<And>t. \<not> inside s t"
    by (auto simp: finished_def list_all_iff inside_def)
  with assms(1) show ?thesis by (simp add: cinv_def)
qed

lemma length_workers_step: "cstep t s = Some s' \<Longrightarrow> length (workers s') = length (workers s) \<and> iters s' = iters s"
  by (auto simp: cstep_def Let_def split: if_splits pc.splits)

lemma length_workers_run: "length (workers (crun ts s)) = length (workers s) \<and> iters (crun ts s) = iters s"
  by (induction ts arbitrary: s) (auto split: option.splits dest: length_workers_step)

lemma Value_finished:
  assumes "finished (crun sched (TestMutex n m))"
  shows "Value (crun sched (TestMutex n m)) = Some (word_of_nat (n * m))"
proof -
  let ?s = "crun sched (TestMutex n m)"
  have inv: "cinv ?s" by (rule cinv_run [OF cinv_init])
  have len: "length (workers ?s) = n" "iters ?s = m"
    using length_workers_run [of sched "TestMutex n m"] by (simp_all add: TestMutex_def)
  from finished_credit [OF inv assms] len
  have "sum_list (map credit (workers ?s)) = n * m" by simp
  with inv have "value (counter ?s) = word_of_nat (n * m)" by (simp add: cinv_def)
  with finished_unlocked [OF inv assms] show ?thesis by (simp add: Value_def)
qed

lemma sum_list_map_update_less:
  assumes "t < length xs" "(f y :: nat) < f (xs ! t)"
  shows "sum_list (map f (xs[t := y])) < sum_list (map f xs)"
  using sum_list_map_update [OF assms(1), of f y] assms(2) by linarith

lemma work_step:
  assumes inv: "cinv s" and step: "cstep t s = Some s'"
  shows "work s' < work s"
proof -
  let ?f = "\<lambda>w. 4 * (iters s - j w) - phase (pc w)"
  have it: "iters s' = iters s" using length_workers_step [OF step] by simp
  have "\<exists>w'. t < length (workers s) \<and> workers s' = (workers s)[t := w'] \<and> ?f w' < ?f (workers s ! t)"
  proof (cases "pc (workers s ! t)")
    case AtLock
    from cstep_lock [OF step AtLock] AtLock show ?thesis
      by (intro exI [of _ "(workers s ! t)\<lparr>pc := AtLoad\<rparr>"]) auto
  next
    case AtLoad
    from cstep_load [OF step AtLoad] have t: "t < length (workers s)" by simp
    with AtLoad have "inside s t" by (simp add: inside_def)
    with inv have "j (workers s ! t) < iters s" by (auto simp: cinv_def)
    with cstep_load [OF step AtLoad] AtLoad show ?thesis
      by (intro exI [of _ "(workers s ! t)\<lparr>pc := AtStore (value (counter s))\<rparr>"]) auto
  next
    case (AtStore r)
    from cstep_store [OF step AtStore] have t: "t < length (workers s)" by simp
    with AtStore have "inside s t" by (simp add: inside_def)
    with inv have "j (workers s ! t) < iters s" by (auto simp: cinv_def)
    with cstep_store [OF step AtStore] AtStore show ?thesis
      by (intro exI [of _ "(workers s ! t)\<lparr>pc := AtUnlock\<rparr>"]) auto
  next
    case AtUnlock
    from cstep_unlock [OF step AtUnlock] have t: "t < length (workers s)" by simp
    with AtUnlock have "inside s t" by (simp add: inside_def)
    with inv have "j (workers s ! t) < iters s" by (auto simp: cinv_def)
    with cstep_unlock [OF step AtUnlock] AtUnlock show ?thesis
      by (intro exI [of _ "(workers s ! t)\<lparr>j := j (workers s ! t) + 1, pc := AtLock\<rparr>"]) auto
  qed
  then obtain w' where w': "t < length (workers s)" "workers s' = (workers s)[t := w']"
      "?f w' < ?f (workers s ! t)" by blast
  from sum_list_map_update_less [of t "workers s" ?f w', OF w'(1) w'(3)] w'(2) it
  show ?thesis by (simp add: work_def)
qed

lemma cstep_progress:
  assumes inv: "cinv s" and nf: "\<not> finished s"
  shows "\<exists>t s'. cstep t s = Some s'"
proof (cases "mu (counter s)")
  case True
  with inv obtain t where "inside s t" by (auto simp: cinv_def)
  then have "t < length (workers s)" "pc (workers s ! t) \<noteq> AtLock" by (simp_all add: inside_def)
  then have "cstep t s \<noteq> None"
    by (cases "pc (workers s ! t)") (simp_all add: cstep_def Let_def)
  then show ?thesis by auto
next
  case False
  with inv have out: "\<And>t. \<not> inside s t" by (auto simp: cinv_def)
  from nf obtain w where w: "w \<in> set (workers s)" "\<not> (pc w = AtLock \<and> iters s \<le> j w)"
    by (auto simp: finished_def list_all_iff)
  then obtain t where t: "t < length (workers s)" "workers s ! t = w"
    by (auto simp: in_set_conv_nth)
  with out [of t] have "pc w = AtLock" by (auto simp: inside_def)
  with w t False have "cstep t s \<noteq> None" by (simp add: cstep_def Let_def)
  then show ?thesis by auto
qed

lemma can_finish: "cinv s \<Longrightarrow> \<exists>ts. finished (crun ts s)"
proof (induction "work s" arbitrary: s rule: less_induct)
  case less
  show ?case
  proof (cases "finished s")
    case True
    then have "finished (crun [] s)" by simp
    then show ?thesis by blast
  next
    case False
    from cstep_progress [OF less.prems False] obtain t s' where st: "cstep t s = Some s'" by blast
    from less.hyps [OF work_step [OF less.prems st] cinv_step [OF less.prems st]]
    obtain ts where "finished (crun ts s')" by blast
    with st have "finished (crun (t # ts) s)" by simp
    then show ?thesis by blast
  qed
qed

text \<open>
  C1. No lost update. For every number \<open>n\<close> of goroutines and every number \<open>m\<close> of calls
  of \<open>Increment\<close> by each, on a counter that starts at 0: some schedule lets all of them
  finish, and under every schedule, once all have finished, \<open>Value()\<close> returns
  \<open>n \<times> m\<close>. The field is an \<open>int\<close>: the equation holds in 64-bit arithmetic for all
  \<open>n\<close> and \<open>m\<close>, and between integers whenever \<open>n \<times> m < 2\<^sup>6\<^sup>3\<close>.
\<close>

theorem SafeCounter_no_lost_update:
  "(\<exists>sched. finished (crun sched (TestMutex n m))) \<and>
   (finished (crun sched (TestMutex n m)) \<longrightarrow>
      (\<exists>v. Value (crun sched (TestMutex n m)) = Some v \<and>
           v = word_of_nat n * word_of_nat m \<and>
           (n * m < 2 ^ 63 \<longrightarrow> sint v = int n * int m)))"
proof (intro conjI impI)
  show "\<exists>sched. finished (crun sched (TestMutex n m))"
    by (rule can_finish [OF cinv_init])
next
  assume fin: "finished (crun sched (TestMutex n m))"
  have "n * m < 2 ^ 63 \<longrightarrow> sint (word_of_nat (n * m) :: 64 word) = int n * int m"
    using sint_word_of_nat [of "n * m"] by simp
  with Value_finished [OF fin]
  show "\<exists>v. Value (crun sched (TestMutex n m)) = Some v \<and>
           v = word_of_nat n * word_of_nat m \<and>
           (n * m < 2 ^ 63 \<longrightarrow> sint v = int n * int m)"
    by simp
qed

theorem SafeCounter_no_lost_update_witness:
  "finished (crun [0, 1, 0, 0, 0, 1, 1, 1, 1] (TestMutex 2 1)) \<and>
   (2::nat) * 1 < 2 ^ 63 \<and>
   (\<exists>v. Value (crun [0, 1, 0, 0, 0, 1, 1, 1, 1] (TestMutex 2 1)) = Some v \<and> sint v = 2)"
proof -
  have f: "finished (crun [0, 1, 0, 0, 0, 1, 1, 1, 1] (TestMutex 2 1))"
    by (simp add: TestMutex_def numeral_eq_Suc cstep_def finished_def zero_SafeCounter_def)
  from SafeCounter_no_lost_update [of 2 1 "[0, 1, 0, 0, 0, 1, 1, 1, 1]"] f
  show ?thesis by auto
qed

section \<open>Properties of the generator\<close>

lemma Intn_1000: "Intn 1000 draw = Inr (word_of_nat (draw mod 1000))"
  by (simp add: Intn_def)

lemma delay_eq: "delay draw = Inr (Millisecond * word_of_nat (draw mod 1000))"
  by (simp add: delay_def Intn_1000)

lemma generator_loop_eq:
  "generator_loop msg draws k i =
     Inr (map (\<lambda>n. \<lparr>sent = Sprintf_s_d msg (i + word_of_nat n),
                    slept = Millisecond * word_of_nat (draws n mod 1000)\<rparr>) [0..<k])"
proof (induction k arbitrary: draws i)
  case 0
  show ?case by simp
next
  case (Suc k)
  have "[0..<Suc k] = 0 # [Suc 0..<Suc k]"
    by (rule upt_conv_Cons) simp
  then have "[0..<Suc k] = 0 # map Suc [0..<k]"
    by (simp only: map_Suc_upt)
  then show ?case
    by (simp add: Suc.IH delay_eq comp_def add.assoc add.commute add.left_commute del: upt_Suc)
qed

lemma fmt_d_small:
  assumes "n < 2 ^ 63"
  shows "fmt_d (word_of_nat n) = decimal n"
  using sint_word_of_nat [OF assms] by (simp add: fmt_d_def)

text \<open>
  C7. For every label, the first \<open>k\<close> messages of the generator, for every \<open>k\<close>, are
  the label, a space and the loop counter, which starts at 0 and goes up by one with
  each send. The counter is an \<open>int\<close>: message number \<open>n\<close> carries the decimal numeral
  of \<open>n\<close> for every \<open>n < 2\<^sup>6\<^sup>3\<close>.
\<close>

theorem generator_messages:
  "\<exists>its. generatorWithBoring msg draws k = Inr its \<and> length its = k \<and>
     (\<forall>n<k. sent (its ! n) = Sprintf_s_d msg (word_of_nat n) \<and>
            (n < 2 ^ 63 \<longrightarrow> sent (its ! n) = msg @ '' '' @ decimal n))"
  by (simp add: generatorWithBoring_def generator_loop_eq Sprintf_s_d_def fmt_d_small)

theorem generator_messages_witness:
  "\<exists>its. generatorWithBoring ''Joe'' (\<lambda>n. 1234567 * n) 12 = Inr its \<and> length its = 12 \<and>
     (11::nat) < 12 \<and> (11::nat) < 2 ^ 63 \<and>
     sent (its ! 0) = ''Joe 0'' \<and> sent (its ! 1) = ''Joe 1'' \<and> sent (its ! 11) = ''Joe 11''"
proof -
  from generator_messages [of "''Joe''" "\<lambda>n. 1234567 * n" 12]
  obtain its where its: "generatorWithBoring ''Joe'' (\<lambda>n. 1234567 * n) 12 = Inr its" "length its = 12"
    and all: "\<forall>n<12. sent (its ! n) = Sprintf_s_d ''Joe'' (word_of_nat n) \<and>
            (n < 2 ^ 63 \<longrightarrow> sent (its ! n) = ''Joe'' @ '' '' @ decimal n)"
    by blast
  have "sent (its ! 0) = ''Joe'' @ '' '' @ decimal 0" using all [rule_format, of 0] by auto
  moreover have "sent (its ! 1) = ''Joe'' @ '' '' @ decimal 1" using all [rule_format, of 1] by auto
  moreover have "sent (its ! 11) = ''Joe'' @ '' '' @ decimal 11" using all [rule_format, of 11] by auto
  moreover have "decimal 0 = ''0''" "decimal 1 = ''1''" "decimal 11 = ''11''"
    by (simp_all add: decimal.simps digit_def)
  ultimately show ?thesis using its by simp
qed

lemma sint_ms:
  assumes "d \<le> 999"
  shows "sint (Millisecond * word_of_nat d :: 64 word) = 1000000 * int d"
proof -
  have "Millisecond * word_of_nat d = (word_of_nat (1000000 * d) :: 64 word)"
    by (simp add: Millisecond_def)
  moreover have "1000000 * d < 2 ^ 63" using assms by simp
  ultimately show ?thesis using sint_word_of_nat [of "1000000 * d"] by simp
qed

text \<open>
  C8. The delay after each send is a whole number \<open>d\<close> of milliseconds with
  \<open>0 \<le> d \<le> 999\<close>, whatever the pseudo-random source draws: for a single evaluation of
  the argument of \<open>time.Sleep\<close>, and for every iteration of the loop. The product with
  \<open>time.Millisecond\<close> does not overflow.
\<close>

theorem generator_delay_bound:
  "(\<exists>d \<le> 999. delay draw = Inr (Millisecond * word_of_nat d) \<and>
               sint (Millisecond * word_of_nat d) = 1000000 * int d) \<and>
   (\<exists>its. generatorWithBoring msg draws k = Inr its \<and> length its = k \<and>
      (\<forall>n<k. \<exists>d \<le> 999. slept (its ! n) = Millisecond * word_of_nat d \<and>
                           sint (slept (its ! n)) = 1000000 * int d))"
proof
  have "draw mod 1000 \<le> 999" by simp
  with sint_ms [of "draw mod 1000"] delay_eq [of draw]
  show "\<exists>d \<le> 999. delay draw = Inr (Millisecond * word_of_nat d) \<and>
               sint (Millisecond * word_of_nat d) = 1000000 * int d" by blast
next
  have "\<exists>d \<le> 999. Millisecond * word_of_nat (draws n mod 1000) = Millisecond * word_of_nat d \<and>
         sint (Millisecond * word_of_nat (draws n mod 1000)) = 1000000 * int d" for n
    using sint_ms [of "draws n mod 1000"] by (intro exI [of _ "draws n mod 1000"]) simp
  then show "\<exists>its. generatorWithBoring msg draws k = Inr its \<and> length its = k \<and>
      (\<forall>n<k. \<exists>d \<le> 999. slept (its ! n) = Millisecond * word_of_nat d \<and>
                           sint (slept (its ! n)) = 1000000 * int d)"
    by (simp add: generatorWithBoring_def generator_loop_eq)
qed

theorem generator_delay_bound_witness:
  "delay 123456789 = Inr 789000000 \<and>
   (\<exists>its. generatorWithBoring ''Joe'' (\<lambda>n. 1999 + n) 2 = Inr its \<and> length its = 2 \<and> (1::nat) < 2 \<and>
      (\<exists>d \<le> 999. slept (its ! 1) = Millisecond * word_of_nat d \<and> sint (slept (its ! 1)) = 1000000 * int d))"
proof -
  from generator_delay_bound [of 123456789 "''Joe''" "\<lambda>n. 1999 + n" 2]
  obtain its where its: "generatorWithBoring ''Joe'' (\<lambda>n. 1999 + n) 2 = Inr its" "length its = 2"
    and all: "\<forall>n<2. \<exists>d \<le> 999. slept (its ! n) = Millisecond * word_of_nat d \<and>
                           sint (slept (its ! n)) = 1000000 * int d"
    by blast
  have one: "(1::nat) < 2" by simp
  from all one have "\<exists>d \<le> 999. slept (its ! 1) = Millisecond * word_of_nat d \<and>
                           sint (slept (its ! 1)) = 1000000 * int d" by blast
  moreover have "delay 123456789 = Inr 789000000"
    by (simp add: delay_def Intn_def Millisecond_def)
  ultimately show ?thesis using its one by blast
qed

section \<open>Properties of the fan-in\<close>

lemma snoc_in_shuffles_single: "ys @ [v] \<in> shuffles [v] ys"
  by (induction ys) (simp_all add: Cons_in_shuffles_rightI)

lemma snoc_in_shuffles_left:
  "zs \<in> shuffles xs ys \<Longrightarrow> zs @ [v] \<in> shuffles (xs @ [v]) ys"
proof (induction xs ys arbitrary: zs rule: shuffles.induct)
  case (1 ys)
  then show ?case by (simp add: snoc_in_shuffles_single)
next
  case (2 xs)
  then show ?case by simp
next
  case (3 x xs y ys)
  from "3.prems" consider zs' where "zs = x # zs'" "zs' \<in> shuffles xs (y # ys)"
    | zs' where "zs = y # zs'" "zs' \<in> shuffles (x # xs) ys"
    by auto
  then show ?case
  proof cases
    case 1
    from "3.IH"(1) [OF 1(2)] have "x # (zs' @ [v]) \<in> shuffles (x # (xs @ [v])) (y # ys)"
      by (rule Cons_in_shuffles_leftI)
    with 1(1) show ?thesis by simp
  next
    case 2
    from "3.IH"(2) [OF 2(2)] have "y # (zs' @ [v]) \<in> shuffles ((x # xs) @ [v]) (y # ys)"
      by (rule Cons_in_shuffles_rightI)
    with 2(1) show ?thesis by simp
  qed
qed

lemma snoc_in_shuffles_right:
  "zs \<in> shuffles xs ys \<Longrightarrow> zs @ [v] \<in> shuffles xs (ys @ [v])"
  using snoc_in_shuffles_left [of zs ys xs v] by (simp add: shuffles_commutes)

lemma finv_init: "finv xs ys (snd (fanIn 0 1 (two_sources xs False ys False)))"
  unfolding finv_def
  by (rule exI [of _ AtRecv], rule exI [of _ AtRecv], rule exI [of _ "[]"], rule exI [of _ "[]"])
     (simp add: fanIn_def two_sources_def Let_def)

lemma finv_step:
  assumes inv: "finv xs ys s" and step: "fstep k s = Some s'"
  shows "finv xs ys s' \<and> fwork s' < fwork s"
proof -
  from inv obtain l0 l1 dx dy where
    p: "procs s = [\<lparr>reads = 0, writes = 2, at = l0\<rparr>, \<lparr>reads = 1, writes = 2, at = l1\<rparr>]"
    and op: "\<not> closes (feeds s 0)" "\<not> closes (feeds s 1)"
    and sh: "got s 2 \<in> shuffles dx dy"
    and x: "dx @ held l0 @ pending (feeds s 0) = xs"
    and y: "dy @ held l1 @ pending (feeds s 1) = ys"
    unfolding finv_def by blast
  from step p have "k = 0 \<or> k = 1"
    by (auto simp: fstep_def split: if_splits)
  then show ?thesis
  proof
    assume k: "k = 0"
    show ?thesis
    proof (cases l0)
      case AtRecv
      with step p k op obtain v rest where
        pe: "pending (feeds s 0) = v # rest"
        and s': "s' = s\<lparr>feeds := (feeds s)(0 := (feeds s 0)\<lparr>pending := rest\<rparr>),
                       procs := [\<lparr>reads = 0, writes = 2, at = AtSend v\<rparr>, \<lparr>reads = 1, writes = 2, at = l1\<rparr>]\<rparr>"
        by (auto simp: fstep_def recv_def Let_def split: list.splits if_splits)
      have "finv xs ys s'"
        unfolding finv_def
        apply (rule exI [of _ "AtSend v"], rule exI [of _ l1], rule exI [of _ dx], rule exI [of _ dy])
        using s' op sh x y pe AtRecv by simp
      moreover have "fwork s' < fwork s"
        using s' p pe AtRecv by (simp add: fwork_def)
      ultimately show ?thesis ..
    next
      case (AtSend v)
      with step p k have
        s': "s' = s\<lparr>got := (got s)(2 := got s 2 @ [v]),
                     procs := [\<lparr>reads = 0, writes = 2, at = AtRecv\<rparr>, \<lparr>reads = 1, writes = 2, at = l1\<rparr>]\<rparr>"
        by (auto simp: fstep_def Let_def)
      have "finv xs ys s'"
        unfolding finv_def
        apply (rule exI [of _ AtRecv], rule exI [of _ l1], rule exI [of _ "dx @ [v]"], rule exI [of _ dy])
        using s' op snoc_in_shuffles_left [OF sh, of v] x y AtSend by simp
      moreover have "fwork s' < fwork s"
        using s' p AtSend by (simp add: fwork_def)
      ultimately show ?thesis ..
    qed
  next
    assume k: "k = 1"
    show ?thesis
    proof (cases l1)
      case AtRecv
      with step p k op obtain v rest where
        pe: "pending (feeds s 1) = v # rest"
        and s': "s' = s\<lparr>feeds := (feeds s)(1 := (feeds s 1)\<lparr>pending := rest\<rparr>),
                       procs := [\<lparr>reads = 0, writes = 2, at = l0\<rparr>, \<lparr>reads = 1, writes = 2, at = AtSend v\<rparr>]\<rparr>"
        by (auto simp: fstep_def recv_def Let_def split: list.splits if_splits)
      have "finv xs ys s'"
        unfolding finv_def
        apply (rule exI [of _ l0], rule exI [of _ "AtSend v"], rule exI [of _ dx], rule exI [of _ dy])
        using s' op sh x y pe AtRecv by simp
      moreover have "fwork s' < fwork s"
        using s' p pe AtRecv by (simp add: fwork_def)
      ultimately show ?thesis ..
    next
      case (AtSend v)
      with step p k have
        s': "s' = s\<lparr>got := (got s)(2 := got s 2 @ [v]),
                     procs := [\<lparr>reads = 0, writes = 2, at = l0\<rparr>, \<lparr>reads = 1, writes = 2, at = AtRecv\<rparr>]\<rparr>"
        by (auto simp: fstep_def Let_def)
      have "finv xs ys s'"
        unfolding finv_def
        apply (rule exI [of _ l0], rule exI [of _ AtRecv], rule exI [of _ dx], rule exI [of _ "dy @ [v]"])
        using s' op snoc_in_shuffles_right [OF sh, of v] x y AtSend by simp
      moreover have "fwork s' < fwork s"
        using s' p AtSend by (simp add: fwork_def)
      ultimately show ?thesis ..
    qed
  qed
qed

lemma finv_run: "finv xs ys s \<Longrightarrow> finv xs ys (frun ks s)"
  by (induction ks arbitrary: s) (auto split: option.splits dest: finv_step)

lemma finv_partial:
  assumes "finv xs ys s"
  shows "\<exists>a b. got s 2 \<in> shuffles (take a xs) (take b ys)"
proof -
  from assms obtain l0 l1 dx dy where
    sh: "got s 2 \<in> shuffles dx dy"
    and x: "dx @ held l0 @ pending (feeds s 0) = xs"
    and y: "dy @ held l1 @ pending (feeds s 1) = ys"
    unfolding finv_def by blast
  from x have "take (length dx) xs = dx" by auto
  moreover from y have "take (length dy) ys = dy" by auto
  ultimately show ?thesis using sh by metis
qed

lemma finv_quiescent:
  assumes inv: "finv xs ys s" and q: "quiescent s"
  shows "got s 2 \<in> shuffles xs ys"
proof -
  from inv obtain l0 l1 dx dy where
    p: "procs s = [\<lparr>reads = 0, writes = 2, at = l0\<rparr>, \<lparr>reads = 1, writes = 2, at = l1\<rparr>]"
    and op: "\<not> closes (feeds s 0)" "\<not> closes (feeds s 1)"
    and sh: "got s 2 \<in> shuffles dx dy"
    and x: "dx @ held l0 @ pending (feeds s 0) = xs"
    and y: "dy @ held l1 @ pending (feeds s 1) = ys"
    unfolding finv_def by blast
  from q p have n: "fstep 0 s = None" "fstep 1 s = None"
    by (simp_all add: quiescent_def upt_rec [of 0] upt_rec [of 1])
  from n(1) p have "l0 = AtRecv \<and> pending (feeds s 0) = []"
    by (cases l0) (auto simp: fstep_def recv_def Let_def split: list.splits if_splits)
  moreover from n(2) p have "l1 = AtRecv \<and> pending (feeds s 1) = []"
    by (cases l1) (auto simp: fstep_def recv_def Let_def split: list.splits if_splits)
  ultimately show ?thesis using sh x y by simp
qed

lemma can_quiesce: "finv xs ys s \<Longrightarrow> \<exists>ks. quiescent (frun ks s)"
proof (induction "fwork s" arbitrary: s rule: less_induct)
  case less
  show ?case
  proof (cases "quiescent s")
    case True
    then have "quiescent (frun [] s)" by simp
    then show ?thesis by blast
  next
    case False
    then obtain k s' where st: "fstep k s = Some s'"
      by (auto simp: quiescent_def list_all_iff)
    from finv_step [OF less.prems st] have "finv xs ys s'" "fwork s' < fwork s" by simp_all
    from less.hyps [OF this(2) this(1)] obtain ks where "quiescent (frun ks s')" by blast
    with st have "quiescent (frun (k # ks) s)" by simp
    then show ?thesis by blast
  qed
qed

lemma fanIn_run_eq:
  "fanIn_run xs cx ys cy sched =
     (got (frun sched (snd (fanIn 0 1 (two_sources xs cx ys cy)))) 2,
      frun sched (snd (fanIn 0 1 (two_sources xs cx ys cy))))"
  by (simp add: fanIn_run_def fanIn_def two_sources_def Let_def)

text \<open>
  C5, for sources that leave their channel open. Two sources send the finite sequences
  \<open>xs\<close> and \<open>ys\<close> and then stop without closing their channels. Some schedule brings the
  merge to rest. Under every schedule, what the caller has read is an interleaving of a
  prefix of \<open>xs\<close> and a prefix of \<open>ys\<close>; once no goroutine can move it is an interleaving
  of \<open>xs\<close> and \<open>ys\<close>: every message of each source, each source's messages in their
  original order, and \<open>2K\<close> messages when each source sent \<open>K\<close>.
\<close>

theorem fanIn_merge_complete:
  "(\<exists>sched. quiescent (snd (fanIn_run xs False ys False sched))) \<and>
   (\<exists>a b. fst (fanIn_run xs False ys False sched) \<in> shuffles (take a xs) (take b ys)) \<and>
   (quiescent (snd (fanIn_run xs False ys False sched)) \<longrightarrow>
      fst (fanIn_run xs False ys False sched) \<in> shuffles xs ys \<and>
      (length xs = K \<and> length ys = K \<longrightarrow> length (fst (fanIn_run xs False ys False sched)) = 2 * K))"
proof -
  have inv: "finv xs ys (frun sched (snd (fanIn 0 1 (two_sources xs False ys False))))"
    by (rule finv_run [OF finv_init])
  have "finv xs ys (snd (fanIn 0 1 (two_sources xs False ys False)))"
    by (rule finv_init)
  from can_quiesce [OF this]
  have 1: "\<exists>sched. quiescent (snd (fanIn_run xs False ys False sched))"
    by (simp add: fanIn_run_eq)
  from finv_partial [OF inv]
  have 2: "\<exists>a b. fst (fanIn_run xs False ys False sched) \<in> shuffles (take a xs) (take b ys)"
    by (simp add: fanIn_run_eq)
  have 3: "fst (fanIn_run xs False ys False sched) \<in> shuffles xs ys"
    if "quiescent (snd (fanIn_run xs False ys False sched))"
    using finv_quiescent [OF inv] that by (simp add: fanIn_run_eq)
  have 4: "length (fst (fanIn_run xs False ys False sched)) = 2 * K"
    if "quiescent (snd (fanIn_run xs False ys False sched))" "length xs = K \<and> length ys = K"
    using length_shuffles [OF 3 [OF that(1)]] that(2) by simp
  from 1 2 3 4 show ?thesis by blast
qed

theorem fanIn_merge_complete_witness:
  "quiescent (snd (fanIn_run [''Joe 0'', ''Joe 1''] False [''Ann 0'', ''Ann 1''] False [0, 1, 1, 0, 1, 0, 0, 1])) \<and>
   length [''Joe 0'', ''Joe 1''] = 2 \<and> length [''Ann 0'', ''Ann 1''] = 2 \<and>
   fst (fanIn_run [''Joe 0'', ''Joe 1''] False [''Ann 0'', ''Ann 1''] False [0, 1, 1, 0, 1, 0, 0, 1])
     = [''Ann 0'', ''Joe 0'', ''Joe 1'', ''Ann 1''] \<and>
   fst (fanIn_run [''Joe 0'', ''Joe 1''] False [''Ann 0'', ''Ann 1''] False [0, 1, 1, 0, 1, 0, 0, 1])
     \<in> shuffles [''Joe 0'', ''Joe 1''] [''Ann 0'', ''Ann 1''] \<and>
   length (fst (fanIn_run [''Joe 0'', ''Joe 1''] False [''Ann 0'', ''Ann 1''] False [0, 1, 1, 0, 1, 0, 0, 1])) = 2 * 2"
proof -
  let ?r = "fanIn_run [''Joe 0'', ''Joe 1''] False [''Ann 0'', ''Ann 1''] False [0, 1, 1, 0, 1, 0, 0, 1]"
  have q: "quiescent (snd ?r)"
    by (simp add: fanIn_run_eq fanIn_def two_sources_def Let_def fstep_def recv_def quiescent_def
        upt_rec [of 0] upt_rec [of 1])
  have g: "fst ?r = [''Ann 0'', ''Joe 0'', ''Joe 1'', ''Ann 1'']"
    by (simp add: fanIn_run_eq fanIn_def two_sources_def Let_def fstep_def recv_def)
  have l: "length [''Joe 0'', ''Joe 1''] = 2 \<and> length [''Ann 0'', ''Ann 1''] = 2" by simp
  from fanIn_merge_complete [of "[''Joe 0'', ''Joe 1'']" "[''Ann 0'', ''Ann 1'']"
      "[0, 1, 1, 0, 1, 0, 0, 1]" 2] q l
  have "fst ?r \<in> shuffles [''Joe 0'', ''Joe 1''] [''Ann 0'', ''Ann 1''] \<and> length (fst ?r) = 2 * 2"
    by blast
  with q g l show ?thesis by blast
qed

text \<open>
  C5 as stated, for any two finite sources, fails when the sources close their
  channels: a receive on a closed channel returns the empty string at once, and the
  forwarder sends it on. With one message per source, \<open>K = 1\<close>, the caller can read
  three messages, and the first \<open>2K\<close> of them need not be the sources' messages: here
  the second is the empty string that the first forwarder took from its closed input.
\<close>

theorem fanIn_closed_sources_counterexample:
  "fst (fanIn_run [''a''] True [''b''] True [0, 0, 0, 0, 1, 1]) = [''a'', '''', ''b''] \<and>
   length [''a''] = 1 \<and> length [''b''] = 1 \<and>
   length (fst (fanIn_run [''a''] True [''b''] True [0, 0, 0, 0, 1, 1])) \<noteq> 2 * 1 \<and>
   fst (fanIn_run [''a''] True [''b''] True [0, 0, 0, 0, 1, 1]) \<notin> shuffles [''a''] [''b''] \<and>
   take (2 * 1) (fst (fanIn_run [''a''] True [''b''] True [0, 0, 0, 0, 1, 1])) \<notin> shuffles [''a''] [''b'']"
proof -
  have g: "fst (fanIn_run [''a''] True [''b''] True [0, 0, 0, 0, 1, 1]) = [''a'', '''', ''b'']"
    by (simp add: fanIn_run_eq fanIn_def two_sources_def Let_def fstep_def recv_def)
  show ?thesis unfolding g by simp
qed

text \<open>
  C6, for two input streams. A call of \<open>fanIn\<close> with two channels makes one new channel
  and returns it at once, having started one forwarding goroutine per input, both
  sending to the new channel; nothing has been received or sent by the call itself. A
  forwarder whose input has a message ready receives it, sends it on to the output
  channel, and is back at its receive.
\<close>

theorem fanIn_two_inputs:
  "fanIn_call [input1, input2] s =
     Some (made s,
           s\<lparr>made := Suc (made s),
             procs := procs s @ [\<lparr>reads = input1, writes = made s, at = AtRecv\<rparr>,
                                 \<lparr>reads = input2, writes = made s, at = AtRecv\<rparr>]\<rparr>) \<and>
   (k < length (procs s) \<and> at (procs s ! k) = AtRecv \<and> pending (feeds s (reads (procs s ! k))) = v # rest \<longrightarrow>
      (\<exists>s1 s2. fstep k s = Some s1 \<and> at (procs s1 ! k) = AtSend v \<and>
               fstep k s1 = Some s2 \<and> procs s2 = procs s \<and>
               got s2 = (got s)(writes (procs s ! k) := got s (writes (procs s ! k)) @ [v]) \<and>
               pending (feeds s2 (reads (procs s ! k))) = rest))"
proof (intro conjI impI)
  show "fanIn_call [input1, input2] s =
     Some (made s,
           s\<lparr>made := Suc (made s),
             procs := procs s @ [\<lparr>reads = input1, writes = made s, at = AtRecv\<rparr>,
                                 \<lparr>reads = input2, writes = made s, at = AtRecv\<rparr>]\<rparr>)"
    by (simp add: fanIn_call_def fanIn_def Let_def)
next
  assume a: "k < length (procs s) \<and> at (procs s ! k) = AtRecv \<and>
             pending (feeds s (reads (procs s ! k))) = v # rest"
  let ?p = "procs s ! k"
  let ?s1 = "s\<lparr>feeds := (feeds s)(reads ?p := (feeds s (reads ?p))\<lparr>pending := rest\<rparr>),
               procs := (procs s)[k := ?p\<lparr>at := AtSend v\<rparr>]\<rparr>"
  let ?s2 = "?s1\<lparr>got := (got ?s1)(writes ?p := got ?s1 (writes ?p) @ [v]),
                 procs := (procs ?s1)[k := (procs ?s1 ! k)\<lparr>at := AtRecv\<rparr>]\<rparr>"
  have 1: "fstep k s = Some ?s1"
    using a by (simp add: fstep_def recv_def Let_def)
  have 2: "fstep k ?s1 = Some ?s2"
    using a by (simp add: fstep_def Let_def)
  have 3: "procs ?s2 = procs s"
    using a by (simp add: list_update_same_conv)
  have "at (procs ?s1 ! k) = AtSend v" using a by simp
  moreover have "got ?s2 = (got s)(writes ?p := got s (writes ?p) @ [v])" by simp
  moreover have "pending (feeds ?s2 (reads ?p)) = rest" by simp
  ultimately show "\<exists>s1 s2. fstep k s = Some s1 \<and> at (procs s1 ! k) = AtSend v \<and>
               fstep k s1 = Some s2 \<and> procs s2 = procs s \<and>
               got s2 = (got s)(writes (procs s ! k) := got s (writes (procs s ! k)) @ [v]) \<and>
               pending (feeds s2 (reads (procs s ! k))) = rest"
    using 1 2 3 by blast
qed

theorem fanIn_two_inputs_witness:
  "fanIn_call [0, 1] (two_sources [''Joe 0''] False [] False)
     = Some (fanIn 0 1 (two_sources [''Joe 0''] False [] False)) \<and>
   fst (fanIn 0 1 (two_sources [''Joe 0''] False [] False)) = 2 \<and>
   0 < length (procs (snd (fanIn 0 1 (two_sources [''Joe 0''] False [] False)))) \<and>
   at (procs (snd (fanIn 0 1 (two_sources [''Joe 0''] False [] False))) ! 0) = AtRecv \<and>
   pending (feeds (snd (fanIn 0 1 (two_sources [''Joe 0''] False [] False)))
              (reads (procs (snd (fanIn 0 1 (two_sources [''Joe 0''] False [] False))) ! 0)))
     = ''Joe 0'' # [] \<and>
   (\<exists>s1 s2. fstep 0 (snd (fanIn 0 1 (two_sources [''Joe 0''] False [] False))) = Some s1 \<and>
            at (procs s1 ! 0) = AtSend ''Joe 0'' \<and>
            fstep 0 s1 = Some s2 \<and> got s2 2 = [''Joe 0''] \<and> at (procs s2 ! 0) = AtRecv)"
proof -
  let ?s = "snd (fanIn 0 1 (two_sources [''Joe 0''] False [] False))"
  have c: "fanIn_call [0, 1] (two_sources [''Joe 0''] False [] False)
     = Some (fanIn 0 1 (two_sources [''Joe 0''] False [] False))"
    by (simp add: fanIn_call_def)
  have f: "fst (fanIn 0 1 (two_sources [''Joe 0''] False [] False)) = 2"
    by (simp add: fanIn_def two_sources_def Let_def)
  have p: "procs ?s = [\<lparr>reads = 0, writes = 2, at = AtRecv\<rparr>, \<lparr>reads = 1, writes = 2, at = AtRecv\<rparr>]"
    by (simp add: fanIn_def two_sources_def Let_def)
  have h: "0 < length (procs ?s) \<and> at (procs ?s ! 0) = AtRecv \<and>
           pending (feeds ?s (reads (procs ?s ! 0))) = ''Joe 0'' # []"
    by (simp add: fanIn_def two_sources_def Let_def)
  have g: "got ?s = (\<lambda>_. [])"
    by (simp add: fanIn_def two_sources_def Let_def)
  from fanIn_two_inputs [where s = ?s and k = 0 and v = "''Joe 0''" and rest = "[]"] h
  obtain s1 s2 where
    st: "fstep 0 ?s = Some s1" "at (procs s1 ! 0) = AtSend ''Joe 0''" "fstep 0 s1 = Some s2"
        "procs s2 = procs ?s"
        "got s2 = (got ?s)(writes (procs ?s ! 0) := got ?s (writes (procs ?s ! 0)) @ [''Joe 0''])"
    by blast
  from st(5) p g have "got s2 2 = [''Joe 0'']" by simp
  moreover from st(4) p have "at (procs s2 ! 0) = AtRecv" by simp
  ultimately show ?thesis using c f h st(1-3) by blast
qed

text \<open>
  C6 as stated, for any number of input streams, fails: \<open>fanIn\<close> has exactly two
  parameters, and a call with three channels is not accepted.
\<close>

theorem fanIn_three_inputs_counterexample:
  "fanIn_call [0, 1, 2] (idle_runtime 3) = None"
  by (simp add: fanIn_call_def)

end
